theory Spec2Isabelle
  imports Main "HOL-Library.AList"
begin

section \<open>JavaScript values\<close>

text \<open>
  The form state holds three nested records (values, errors, touches).  They are modelled
  as JSON-like trees.  An object is an association list of its own enumerable properties
  in insertion order; an array is the same thing with the flag set (its elements are the
  properties named by the decimal indices, so holes and extra named properties need no
  special case).  Inherited and built-in properties (\<open>length\<close>, prototype methods,
  the characters of a string) and the numeric ordering of integer-like keys during
  enumeration are outside the model.  Numbers are integers.
\<close>

datatype jsval =
    JUndefined
  | JNull
  | JBool bool
  | JNum int
  | JStr string
  | JObj bool "(string \<times> jsval) list"

type_synonym props = "(string \<times> jsval) list"

text \<open>\<open>Boolean(x)\<close>.\<close>

fun truthy :: "jsval \<Rightarrow> bool" where
  "truthy JUndefined = False"
| "truthy JNull = False"
| "truthy (JBool b) = b"
| "truthy (JNum n) = (n \<noteq> 0)"
| "truthy (JStr s) = (s \<noteq> [])"
| "truthy (JObj a kvs) = True"

text \<open>lodash \<open>isObject\<close> (functions are not values of the model).\<close>

fun isObject :: "jsval \<Rightarrow> bool" where
  "isObject (JObj a kvs) = True"
| "isObject v = False"

text \<open>The own properties of a value; a primitive has none.\<close>

fun props_of :: "jsval \<Rightarrow> props" where
  "props_of (JObj a kvs) = kvs"
| "props_of v = []"

text \<open>\<open>key in object\<close>, on own properties.\<close>

definition hasKey :: "string \<Rightarrow> jsval \<Rightarrow> bool" where
  "hasKey k obj = (k \<in> fst ` set (props_of obj))"

text \<open>\<open>object[key]\<close>: \<open>undefined\<close> when the property is missing.\<close>

definition property :: "jsval \<Rightarrow> string \<Rightarrow> jsval" where
  "property obj k = (case map_of (props_of obj) k of None \<Rightarrow> JUndefined | Some v \<Rightarrow> v)"

text \<open>\<open>object[key] = value\<close> on an object: an existing property keeps its place, a new
  one goes last.\<close>

fun assign :: "jsval \<Rightarrow> string \<Rightarrow> jsval \<Rightarrow> jsval" where
  "assign (JObj a kvs) k v = JObj a (AList.update k v kvs)"
| "assign obj k v = obj"

section \<open>lodash paths\<close>

text \<open>
  \<open>_.get\<close>, \<open>_.set\<close>, \<open>_.merge\<close> and \<open>_.isEqual\<close> belong to lodash
  (\<open>package.json\<close> asks for \<open>^4.17.20\<close>), not to the repository; they are modelled
  from the behaviour of that release.

  \<open>castPath\<close>: a string that is a property of the object, or that has no \<open>.\<close> and no
  bracket group, is one key; any other string is cut into keys by \<open>stringToPath\<close>.
\<close>

fun hasIndexGroup :: "string \<Rightarrow> bool" where
  "hasIndexGroup [] = False"
| "hasIndexGroup (c # cs) = (if c = CHR ''['' then CHR '']'' \<in> set cs else hasIndexGroup cs)"

definition isDeepProp :: "string \<Rightarrow> bool" where
  "isDeepProp p = (CHR ''.'' \<in> set p \<or> hasIndexGroup p)"

definition isKey :: "string \<Rightarrow> jsval \<Rightarrow> bool" where
  "isKey p obj = (\<not> isDeepProp p \<or> hasKey p obj)"

text \<open>
  \<open>stringToPath\<close> collects the matches of lodash's \<open>rePropName\<close> from left to right.
  At each position the expression tries, in this order: a run of characters other than
  \<open>.\<close>, \<open>[\<close> and \<open>]\<close> (a name); a bracket group \<open>[n]\<close> holding a decimal number
  (digits, with an optional sign and an optional fraction) or a quoted string, whose
  content is the key (with its backslash escapes removed); the empty key, when the
  position holds \<open>.\<close> or \<open>[]\<close> followed by \<open>.\<close>, by \<open>[]\<close> or by the end.  A position
  where nothing matches is skipped.  A string that starts with a dot has the empty key
  first.  Characters are the 256 of \<open>char\<close>.
\<close>

definition isSpecial :: "char \<Rightarrow> bool" where
  "isSpecial c = (c = CHR ''.'' \<or> c = CHR ''['' \<or> c = CHR '']'')"

definition isDigit :: "char \<Rightarrow> bool" where
  "isDigit c = (c \<in> set ''0123456789'')"

text \<open>The number of a bracket group, after the opening bracket: the key and what follows
  the closing bracket.\<close>

definition numberKey :: "string \<Rightarrow> (string \<times> string) option" where
  "numberKey cs =
     (let sign = (if cs \<noteq> [] \<and> hd cs = CHR ''-'' then ''-'' else []);
          r0 = drop (length sign) cs;
          d1 = takeWhile isDigit r0;
          r1 = dropWhile isDigit r0
      in if d1 = [] then None
         else (case r1 of
                 [] \<Rightarrow> None
               | c # r2 \<Rightarrow>
                   if c = CHR '']'' then Some (sign @ d1, r2)
                   else if c = CHR ''.'' then
                     (let d2 = takeWhile isDigit r2;
                          r3 = dropWhile isDigit r2
                      in if d2 \<noteq> [] \<and> r3 \<noteq> [] \<and> hd r3 = CHR '']''
                         then Some (sign @ d1 @ ''.'' @ d2, tl r3)
                         else None)
                   else None))"

text \<open>The content of a quoted string up to the closing quote \<open>q\<close>: a backslash takes
  the next character with it (a line terminator excepted).  The result is the raw content
  and what follows the closing quote.\<close>

fun quotedBody :: "char \<Rightarrow> string \<Rightarrow> (string \<times> string) option" where
  "quotedBody q [] = None"
| "quotedBody q (c # cs) =
     (if c = q then Some ([], cs)
      else if c = CHR 0x5C then
        (case cs of
           [] \<Rightarrow> None
         | d # ds \<Rightarrow>
             if d = CHR 0x0A \<or> d = CHR 0x0D then None
             else map_option (\<lambda>(raw, r). (c # d # raw, r)) (quotedBody q ds))
      else map_option (\<lambda>(raw, r). (c # raw, r)) (quotedBody q cs))"

text \<open>\<open>subString.replace(reEscapeChar, '$1')\<close>: a backslash before a backslash stays as
  one backslash, any other backslash is removed.\<close>

fun unescape :: "string \<Rightarrow> string" where
  "unescape [] = []"
| "unescape (c # cs) =
     (if c = CHR 0x5C then
        (case cs of
           [] \<Rightarrow> []
         | d # ds \<Rightarrow> if d = CHR 0x5C then CHR 0x5C # unescape ds else unescape cs)
      else c # unescape cs)"

definition quotedKey :: "string \<Rightarrow> (string \<times> string) option" where
  "quotedKey cs =
     (case cs of
        [] \<Rightarrow> None
      | q # r \<Rightarrow>
          if q = CHR 0x22 \<or> q = CHR 0x27 then
            (case quotedBody q r of
               None \<Rightarrow> None
             | Some (raw, r') \<Rightarrow>
                 if r' \<noteq> [] \<and> hd r' = CHR '']'' then Some (unescape raw, tl r') else None)
          else None)"

definition bracketKey :: "string \<Rightarrow> (string \<times> string) option" where
  "bracketKey cs = (case numberKey cs of Some r \<Rightarrow> Some r | None \<Rightarrow> quotedKey cs)"

text \<open>The third alternative, a look-ahead that consumes nothing.\<close>

definition keyEnd :: "string \<Rightarrow> bool" where
  "keyEnd r = (r = [] \<or> hd r = CHR ''.'' \<or> take 2 r = ''[]'')"

definition emptyKeyAhead :: "string \<Rightarrow> bool" where
  "emptyKeyAhead s =
     (if s \<noteq> [] \<and> hd s = CHR ''.'' then keyEnd (tl s)
      else if take 2 s = ''[]'' then keyEnd (drop 2 s)
      else False)"

text \<open>The scan: \<open>cur\<close> is the name being read, if any.  A special character ends the
  name; then the bracket group or the empty key at this position, if there is one, is the
  next key, and the scan goes on behind the match (behind this character when the match is
  empty or missing).\<close>

fun nameRead :: "string option \<Rightarrow> string" where
  "nameRead None = []"
| "nameRead (Some name) = name"

fun nameDone :: "string option \<Rightarrow> string list" where
  "nameDone None = []"
| "nameDone (Some name) = [name]"

function scanPath :: "string option \<Rightarrow> string \<Rightarrow> string list" where
  "scanPath cur [] = nameDone cur"
| "scanPath cur (c # cs) =
     (if \<not> isSpecial c
      then scanPath (Some (nameRead cur @ [c])) cs
      else nameDone cur @
           (case (if c = CHR ''['' then bracketKey cs else None) of
              Some (key, rest) \<Rightarrow> key # scanPath None rest
            | None \<Rightarrow> (if emptyKeyAhead (c # cs) then [[]] else []) @ scanPath None cs))"
  by pat_completeness auto

termination scanPath
proof (relation "measure (\<lambda>(cur, s). length s)")
  show "wf (measure (\<lambda>(cur, s). length s))" by simp
next
  fix cur :: "string option" and c :: char and cs :: string
  show "((Some (nameRead cur @ [c]), cs), (cur, c # cs)) \<in> measure (\<lambda>(cur, s). length s)"
    by simp
next
  fix cur :: "string option" and c :: char and cs :: string and x2 :: "string \<times> string"
    and key rest :: string
  assume "(if c = CHR ''['' then bracketKey cs else None) = Some x2" and x2: "(key, rest) = x2"
  then have b: "bracketKey cs = Some (key, rest)" by (simp split: if_splits)
  have q: "quotedBody q s = Some (raw, r) \<Longrightarrow> length r < length s" for q s raw r
    by (induction q s arbitrary: raw r rule: quotedBody.induct)
      (fastforce split: if_splits list.splits)+
  have n: "numberKey s = Some (k, r) \<Longrightarrow> length r < length s" for s k r
  proof -
    assume a: "numberKey s = Some (k, r)"
    have d: "length (dropWhile isDigit zs) \<le> length zs" for zs :: string
      by (rule length_dropWhile_le)
    define sign where "sign = (if s \<noteq> [] \<and> hd s = CHR ''-'' then ''-'' else [])"
    define r1 where "r1 = dropWhile isDigit (drop (length sign) s)"
    have l1: "length r1 \<le> length s" unfolding r1_def using d [of "drop (length sign) s"] by simp
    from a show ?thesis
      using l1 d [of "tl r1"]
      by (auto simp: numberKey_def Let_def sign_def [symmetric] r1_def [symmetric]
          split: if_splits list.splits)
  qed
  have "length rest < length cs"
    using b q n
    by (auto simp: bracketKey_def quotedKey_def split: option.splits list.splits if_splits)
      (metis Suc_lessD length_tl less_Suc_eq less_trans_Suc list.size(3) not_less_zero
        length_greater_0_conv less_imp_diff_less)+
  then show "((None, rest), (cur, c # cs)) \<in> measure (\<lambda>(cur, s). length s)" by simp
next
  fix cur :: "string option" and c :: char and cs :: string
  show "((None, cs), (cur, c # cs)) \<in> measure (\<lambda>(cur, s). length s)" by simp
qed

definition stringToPath :: "string \<Rightarrow> string list" where
  "stringToPath p = (if p \<noteq> [] \<and> hd p = CHR ''.'' then [[]] else []) @ scanPath None p"

definition castPath :: "string \<Rightarrow> jsval \<Rightarrow> string list" where
  "castPath p obj = (if isKey p obj then [p] else stringToPath p)"

text \<open>\<open>isIndex\<close>: a decimal numeral without a leading zero, below
  \<open>Number.MAX_SAFE_INTEGER\<close>.\<close>

definition digitsValue :: "string \<Rightarrow> nat" where
  "digitsValue s = foldl (\<lambda>n c. 10 * n + (of_char c - 48)) 0 s"

definition isIndex :: "string \<Rightarrow> bool" where
  "isIndex k = (k \<noteq> [] \<and> list_all isDigit k \<and> (if hd k = CHR ''0'' then k = ''0'' else True)
     \<and> digitsValue k < 9007199254740991)"

text \<open>\<open>baseGet\<close>: follow the keys while the value is not \<open>null\<close> or \<open>undefined\<close>;
  the result is \<open>undefined\<close> when the keys are not used up, and for the empty path.\<close>

fun walk :: "jsval \<Rightarrow> string list \<Rightarrow> jsval" where
  "walk v [] = v"
| "walk v (k # ks) = (if isObject v then walk (property v k) ks else JUndefined)"

definition baseGet :: "jsval \<Rightarrow> string list \<Rightarrow> jsval" where
  "baseGet obj ks = (if ks = [] then JUndefined else walk obj ks)"

definition lodash_get :: "jsval \<Rightarrow> string \<Rightarrow> jsval" where
  "lodash_get obj p = baseGet obj (castPath p obj)"

text \<open>\<open>baseSet\<close>.  Nothing happens to a value that is not an object.  At each key but the
  last, the property is kept when it is an object and is replaced otherwise by a new array
  (the next key is an index) or a new plain object.  The loop returns as soon as it meets
  one of the keys \<open>__proto__\<close>, \<open>constructor\<close>, \<open>prototype\<close>; what it has created
  before that stays.\<close>

definition unsafeKey :: "string \<Rightarrow> bool" where
  "unsafeKey k = (k = ''__proto__'' \<or> k = ''constructor'' \<or> k = ''prototype'')"

fun baseSet :: "jsval \<Rightarrow> string list \<Rightarrow> jsval \<Rightarrow> jsval" where
  "baseSet obj [] v = obj"
| "baseSet obj [k] v = (if unsafeKey k then obj else assign obj k v)"
| "baseSet obj (k # k' # ks) v =
     (if \<not> isObject obj \<or> unsafeKey k then obj
      else let objValue = property obj k;
               newValue = (if isObject objValue then objValue
                           else if isIndex k' then JObj True [] else JObj False [])
           in assign obj k (baseSet newValue (k' # ks) v))"

definition lodash_set :: "jsval \<Rightarrow> string \<Rightarrow> jsval \<Rightarrow> jsval" where
  "lodash_set obj p v = baseSet obj (castPath p obj) v"

text \<open>\<open>_.isEqual\<close>: primitives by value; two objects are equal when both are arrays or
  both are not, they have the same keys, and the values under each key are equal.  Arrays
  are compared like objects, by the elements they hold.\<close>

function (sequential) isEqual :: "jsval \<Rightarrow> jsval \<Rightarrow> bool" where
  "isEqual (JObj a xs) (JObj b ys) =
     (a = b \<and> fst ` set xs = fst ` set ys
      \<and> (\<forall>k \<in> fst ` set xs. isEqual (the (map_of xs k)) (the (map_of ys k))))"
| "isEqual (JObj a xs) w = False"
| "isEqual v (JObj b ys) = False"
| "isEqual v w = (v = w)"
  by pat_completeness auto

termination isEqual
proof (relation "measure (\<lambda>(v, w). size v)")
  show "wf (measure (\<lambda>(v, w). size v))" by simp
next
  fix a :: bool and xs :: props and b :: bool and ys :: props and k :: string
  assume "k \<in> fst ` set xs"
  then obtain v where v: "map_of xs k = Some v"
    by (metis domD dom_map_of_conv_image_fst)
  have "map_of zs k = Some v \<Longrightarrow> size v < Suc (size_list (size_prod (\<lambda>_. 0) size) zs)"
    for zs :: props
    by (induction zs) (auto split: if_splits)
  with v show "((the (map_of xs k), the (map_of ys k)), (JObj a xs, JObj b ys))
      \<in> measure (\<lambda>(v, w). size v)"
    by fastforce
qed

text \<open>\<open>_.merge(object, source)\<close>.  For each property of the source in order: an object
  value is merged recursively into the destination's value under the key (kept when it is
  an object, or an array for an array source; replaced by an empty container of the
  source's kind otherwise); \<open>undefined\<close> is skipped when the destination has the key;
  anything else is assigned.  A source that is not an object changes nothing.\<close>

fun mergeProps :: "props \<Rightarrow> props \<Rightarrow> props" where
  "mergeProps dst [] = dst"
| "mergeProps dst ((k, JObj b svs) # src) =
     mergeProps
       (AList.update k
          (case map_of dst k of
             Some (JObj a dvs) \<Rightarrow>
               (if b \<and> \<not> a then JObj True (mergeProps [] svs) else JObj a (mergeProps dvs svs))
           | _ \<Rightarrow> JObj b (mergeProps [] svs))
          dst)
       src"
| "mergeProps dst ((k, JUndefined) # src) =
     mergeProps (if k \<in> fst ` set dst then dst else AList.update k JUndefined dst) src"
| "mergeProps dst ((k, sv) # src) = mergeProps (AList.update k sv dst) src"

fun lodash_merge :: "jsval \<Rightarrow> jsval \<Rightarrow> jsval" where
  "lodash_merge (JObj a dst) (JObj b src) = JObj a (mergeProps dst src)"
| "lodash_merge obj source = obj"

section \<open>The path helpers of \<open>./utils\<close>\<close>

text \<open>Modelled from the spec: \<open>getDeepStatus\<close> of \<open>./utils\<close>, which is not among the
  sources.  The spec's \<open>probe(record, path)\<close> is the same as \<open>get\<close>: the value at the path,
  \<open>undefined\<close> when a segment is missing.\<close>

definition getDeepStatus :: "jsval \<Rightarrow> string \<Rightarrow> jsval" where
  "getDeepStatus state path = lodash_get state path"

text \<open>Modelled from the spec: \<open>setDeepStatus\<close> of \<open>./utils\<close>, which is not among the
  sources.  The spec's \<open>set(record, path, value)\<close> writes in place and creates the
  intermediate containers, arrays where a segment is numeric.\<close>

definition setDeepStatus :: "jsval \<Rightarrow> string \<Rightarrow> jsval \<Rightarrow> jsval" where
  "setDeepStatus state path v = lodash_set state path v"

text \<open>Modelled from the spec: \<open>objectDeepPairs\<close> of \<open>./utils\<close>, which is not among the
  sources.  The spec's \<open>flatten(record)\<close> lists every leaf \<open>(path, value)\<close> pair of a
  nested record in the order of its keys, the path in dot syntax.\<close>

fun deepPairs :: "string \<Rightarrow> props \<Rightarrow> (string \<times> jsval) list" where
  "deepPairs pre [] = []"
| "deepPairs pre ((k, JObj a kvs) # rest) = deepPairs (pre @ k @ ''.'') kvs @ deepPairs pre rest"
| "deepPairs pre ((k, v) # rest) = (pre @ k, v) # deepPairs pre rest"

text \<open>Modelled from the spec: \<open>objectDeepPairs\<close> of \<open>./utils\<close> on the record itself;
  the paths of its leaves have no prefix.\<close>

definition objectDeepPairs :: "jsval \<Rightarrow> (string \<times> jsval) list" where
  "objectDeepPairs obj = deepPairs [] (props_of obj)"

section \<open>The form state and the manager's fields\<close>

text \<open>\<open>ApolloFormState\<close>.\<close>

record form_state =
  "values" :: jsval
  errors :: jsval
  touches :: jsval
  isValid :: bool
  loading :: bool
  existsChanges :: bool
  isSubmitted :: bool

text \<open>The promise returned by the submit handler either resolves or rejects.\<close>

datatype outcome = Resolved | Rejected

text \<open>
  The fields of a \<open>FormManager\<close>.  Its \<open>FormManipulator\<close> is built from the same
  properties and shares the validator registry and the initial errors and touches by
  reference, so one record stands for both objects.  A field validator returns a message
  or \<open>undefined\<close> (\<open>None\<close>).  The schema is the function from the values to the
  violations \<open>(path, message)\<close> that \<open>validateSync\<close> throws as \<open>e.inner\<close> (none when it
  does not throw).  The submit handler is the function from the state it is given to the
  outcome of the promise it returns.  \<open>cache\<close> is what the Apollo client holds under the
  form's name; \<open>inflight\<close> lists the states handed to the submit handler whose promise
  has not settled.  The \<open>onChange\<close> callback only notifies the host and is left out.
\<close>

record manager =
  validateHandler :: "(form_state \<Rightarrow> jsval) option"
  validationSchema :: "(jsval \<Rightarrow> (string \<times> string) list) option"
  customValidators :: "(string \<times> (jsval \<Rightarrow> string option)) list"
  onSubmit :: "(form_state \<Rightarrow> outcome) option"
  resetOnSubmit :: "bool option"
  validateOnMount :: "bool option"
  initialState :: jsval
  initialErrors :: jsval
  initialTouches :: jsval
  cache :: "form_state option"
  inflight :: "form_state list"

text \<open>\<open>FormManagerParams\<close>, without the client and the name.\<close>

record params =
  props_initialState :: jsval
  props_initialErrors :: "jsval option"
  props_initialTouches :: "jsval option"
  props_validate :: "(form_state \<Rightarrow> jsval) option"
  props_validationSchema :: "(jsval \<Rightarrow> (string \<times> string) list) option"
  props_onSubmit :: "(form_state \<Rightarrow> outcome) option"
  props_resetOnSubmit :: "bool option"
  props_validateOnMount :: "bool option"

text \<open>An optional boolean used as a condition or as an argument with default \<open>false\<close>.\<close>

fun flag :: "bool option \<Rightarrow> bool" where
  "flag None = False"
| "flag (Some b) = b"

definition defaultState :: form_state where
  "defaultState = \<lparr> values = JUndefined, errors = JObj False [], touches = JObj False [],
     isValid = True, loading = False, existsChanges = False, isSubmitted = False \<rparr>"

section \<open>FormManipulator\<close>

text \<open>A message or \<open>undefined\<close> as a value.\<close>

fun message :: "string option \<Rightarrow> jsval" where
  "message None = JUndefined"
| "message (Some s) = JStr s"

definition setValue :: "form_state \<Rightarrow> string \<Rightarrow> jsval \<Rightarrow> form_state" where
  "setValue state key newValue =
     (let v = lodash_get (values state) key;
          state1 = (if \<not> isEqual v newValue
                    then state\<lparr>values := lodash_set (values state) key newValue\<rparr>
                    else state)
      in if \<not> existsChanges state1 then state1\<lparr>existsChanges := True\<rparr> else state1)"

definition setError :: "form_state \<Rightarrow> string \<Rightarrow> string option \<Rightarrow> form_state" where
  "setError state key v =
     (let error = getDeepStatus (errors state) key
      in if error \<noteq> message v
         then state\<lparr>errors := setDeepStatus (errors state) key (message v)\<rparr>
         else state)"

definition setTouched :: "form_state \<Rightarrow> string \<Rightarrow> bool \<Rightarrow> form_state" where
  "setTouched state key v =
     (let touched = getDeepStatus (touches state) key
      in if touched \<noteq> JBool v
         then state\<lparr>touches := setDeepStatus (touches state) key (JBool v)\<rparr>
         else state)"

definition getValue :: "form_state \<Rightarrow> string \<Rightarrow> jsval" where
  "getValue state key = lodash_get (values state) key"

definition getError :: "form_state \<Rightarrow> string \<Rightarrow> jsval" where
  "getError state key = getDeepStatus (errors state) key"


text \<open>\<open>validate\<close>, in the order of the source: the errors are emptied; the free-form
  validator's result is merged in; each registered field validator whose key is not a
  property of the errors object is run on the value at its key; the schema's violations
  are set one by one; the validity is computed from the leaf pairs; with \<open>allTouched\<close>
  every pair's path is marked in the touches.\<close>

definition mergeHandlerErrors :: "manager \<Rightarrow> form_state \<Rightarrow> form_state" where
  "mergeHandlerErrors m state =
     (case validateHandler m of
        None \<Rightarrow> state
      | Some h \<Rightarrow> state\<lparr>errors := lodash_merge (errors state) (h state)\<rparr>)"

definition runCustomValidator ::
    "string \<times> (jsval \<Rightarrow> string option) \<Rightarrow> form_state \<Rightarrow> form_state" where
  "runCustomValidator kf state =
     (if \<not> hasKey (fst kf) (errors state)
      then (let v = lodash_get (values state) (fst kf);
                newError = snd kf v
            in if truthy (message newError) then setError state (fst kf) newError else state)
      else state)"

definition runCustomValidators :: "manager \<Rightarrow> form_state \<Rightarrow> form_state" where
  "runCustomValidators m state = fold runCustomValidator (customValidators m) state"

text \<open>\<open>String.prototype.replace\<close> with a string pattern replaces the first occurrence
  only.\<close>

fun replaceFirst :: "char \<Rightarrow> string \<Rightarrow> string \<Rightarrow> string" where
  "replaceFirst c r [] = []"
| "replaceFirst c r (x # xs) = (if x = c then r @ xs else x # replaceFirst c r xs)"

definition normalizePath :: "string \<Rightarrow> string" where
  "normalizePath path = replaceFirst CHR '']'' [] (replaceFirst CHR ''['' ''.'' path)"

definition setSchemaError :: "string \<times> string \<Rightarrow> form_state \<Rightarrow> form_state" where
  "setSchemaError err state = setError state (normalizePath (fst err)) (Some (snd err))"

definition runSchema :: "manager \<Rightarrow> form_state \<Rightarrow> form_state" where
  "runSchema m state =
     (case validationSchema m of
        None \<Rightarrow> state
      | Some validateSync \<Rightarrow> fold setSchemaError (validateSync (values state)) state)"

definition markTouched :: "string \<times> jsval \<Rightarrow> jsval \<Rightarrow> jsval" where
  "markTouched pair t = lodash_set t (fst pair) (JBool True)"

definition manipulator_validate :: "manager \<Rightarrow> form_state \<Rightarrow> bool \<Rightarrow> form_state" where
  "manipulator_validate m state allTouched =
     (let state1 = state\<lparr>errors := JObj False []\<rparr>;
          state2 = mergeHandlerErrors m state1;
          state3 = runCustomValidators m state2;
          state4 = runSchema m state3;
          errorsPairs = objectDeepPairs (errors state4);
          nextIsValid = \<not> (List.find (\<lambda>el. truthy (snd el)) errorsPairs \<noteq> None);
          state5 = (if allTouched
                    then state4\<lparr>touches := fold markTouched errorsPairs (touches state4)\<rparr>
                    else state4)
      in state5\<lparr>isValid := nextIsValid\<rparr>)"

text \<open>\<open>reset\<close>: every field goes back to its default; the values become the initial
  values, the replacement, or the transform of the current values.  A replacement that is
  falsy counts as none.\<close>

datatype reset_arg = Replace jsval | Transform "jsval \<Rightarrow> jsval"

fun resetValues :: "manager \<Rightarrow> form_state \<Rightarrow> reset_arg option \<Rightarrow> jsval" where
  "resetValues m state None = initialState m"
| "resetValues m state (Some (Transform f)) = f (values state)"
| "resetValues m state (Some (Replace v)) = (if truthy v then v else initialState m)"

definition manipulator_reset :: "manager \<Rightarrow> form_state \<Rightarrow> reset_arg option \<Rightarrow> form_state" where
  "manipulator_reset m state getState =
     defaultState\<lparr>values := resetValues m state getState,
       errors := initialErrors m, touches := initialTouches m\<rparr>"

section \<open>FormManager\<close>

text \<open>\<open>set\<close> writes the state under the form's name; \<open>get\<close> reads it (a failed read
  counts as no data), writes the default state with the initial values, errors and touches
  when there is none, and returns a deep copy.\<close>

definition manager_set :: "manager \<Rightarrow> form_state \<Rightarrow> manager" where
  "manager_set m state = m\<lparr>cache := Some state\<rparr>"

definition manager_get :: "manager \<Rightarrow> manager \<times> form_state" where
  "manager_get m =
     (case cache m of
        Some data \<Rightarrow> (m, data)
      | None \<Rightarrow>
          (let m1 = manager_set m (defaultState\<lparr>values := initialState m,
                      errors := initialErrors m, touches := initialTouches m\<rparr>)
           in (m1, the (cache m1))))"

definition setValues :: "manager \<Rightarrow> jsval \<Rightarrow> manager" where
  "setValues m v = (let (m1, state) = manager_get m in manager_set m1 (state\<lparr>values := v\<rparr>))"

definition setErrors :: "manager \<Rightarrow> jsval \<Rightarrow> manager" where
  "setErrors m e = (let (m1, state) = manager_get m in manager_set m1 (state\<lparr>errors := e\<rparr>))"

definition setTouches :: "manager \<Rightarrow> jsval \<Rightarrow> manager" where
  "setTouches m t = (let (m1, state) = manager_get m in manager_set m1 (state\<lparr>touches := t\<rparr>))"

definition setFieldValue :: "manager \<Rightarrow> string \<Rightarrow> jsval \<Rightarrow> manager" where
  "setFieldValue m key newValue =
     (let (m1, state) = manager_get m;
          touched = getDeepStatus (touches state) key;
          state1 = (if \<not> truthy touched then setTouched state key True else state);
          state2 = setValue state1 key newValue;
          state3 = manipulator_validate m1 state2 False
      in manager_set m1 state3)"

definition setFieldError :: "manager \<Rightarrow> string \<Rightarrow> string option \<Rightarrow> manager" where
  "setFieldError m key error =
     (let (m1, state) = manager_get m;
          state1 = setError state key error;
          errorsPairs = objectDeepPairs (errors state1);
          nextIsValid = (List.find (\<lambda>el. truthy (snd el)) errorsPairs \<noteq> None)
      in manager_set m1 (state1\<lparr>isValid := nextIsValid\<rparr>))"

definition setFieldTouched :: "manager \<Rightarrow> string \<Rightarrow> bool \<Rightarrow> manager" where
  "setFieldTouched m key v =
     (let (m1, state) = manager_get m in manager_set m1 (setTouched state key v))"

definition setIsValid :: "manager \<Rightarrow> bool \<Rightarrow> manager" where
  "setIsValid m v = (let (m1, state) = manager_get m in manager_set m1 (state\<lparr>isValid := v\<rparr>))"

definition setIsSubmitted :: "manager \<Rightarrow> bool \<Rightarrow> manager" where
  "setIsSubmitted m v =
     (let (m1, state) = manager_get m in manager_set m1 (state\<lparr>isSubmitted := v\<rparr>))"

definition setExistsChanges :: "manager \<Rightarrow> bool \<Rightarrow> manager" where
  "setExistsChanges m v =
     (let (m1, state) = manager_get m in manager_set m1 (state\<lparr>existsChanges := v\<rparr>))"

definition setLoading :: "manager \<Rightarrow> bool \<Rightarrow> manager" where
  "setLoading m v = (let (m1, state) = manager_get m in manager_set m1 (state\<lparr>loading := v\<rparr>))"

definition validate :: "manager \<Rightarrow> bool option \<Rightarrow> manager" where
  "validate m allTouched =
     (let (m1, state) = manager_get m
      in manager_set m1 (manipulator_validate m1 state (flag allTouched)))"

definition addFieldValidator :: "manager \<Rightarrow> string \<Rightarrow> (jsval \<Rightarrow> string option) \<Rightarrow> manager" where
  "addFieldValidator m key func =
     (if map_of (customValidators m) key = None
      then m\<lparr>customValidators := customValidators m @ [(key, func)]\<rparr>
      else m)"

definition removeFieldValidator :: "manager \<Rightarrow> string \<Rightarrow> manager" where
  "removeFieldValidator m key = m\<lparr>customValidators := AList.delete key (customValidators m)\<rparr>"

text \<open>\<open>submit\<close> up to the call of the handler.  The state object given to the handler is
  the one the promise's callbacks write back later.\<close>

definition submit :: "manager \<Rightarrow> manager" where
  "submit m =
     (let (m1, state) = manager_get m;
          state1 = manipulator_validate m1 state True;
          state2 = state1\<lparr>isSubmitted := True\<rparr>
      in if onSubmit m1 \<noteq> None \<and> isValid state2
         then (let state3 = state2\<lparr>loading := True\<rparr>;
                   m2 = manager_set m1 state3
               in m2\<lparr>inflight := inflight m2 @ [state3]\<rparr>)
         else manager_set m1 state2)"

text \<open>The callbacks of the handler's promise, on the state object of the call.\<close>

definition submit_then :: "manager \<Rightarrow> form_state \<Rightarrow> manager" where
  "submit_then m state =
     (let state1 = state\<lparr>loading := False\<rparr>;
          state2 = (if flag (resetOnSubmit m) then manipulator_reset m state1 None else state1)
      in manager_set m state2)"

definition submit_catch :: "manager \<Rightarrow> form_state \<Rightarrow> manager" where
  "submit_catch m state = manager_set m (state\<lparr>loading := False\<rparr>)"

text \<open>The promise of the oldest call in flight settles.\<close>

definition settle :: "manager \<Rightarrow> manager" where
  "settle m =
     (case (inflight m, onSubmit m) of
        (state # rest, Some handler) \<Rightarrow>
          (case handler state of
             Resolved \<Rightarrow> submit_then (m\<lparr>inflight := rest\<rparr>) state
           | Rejected \<Rightarrow> submit_catch (m\<lparr>inflight := rest\<rparr>) state)
      | _ \<Rightarrow> m)"

text \<open>\<open>reset\<close>.  After the manipulator's reset the state's touches are the manager's
  \<open>initialTouches\<close> object itself, so the paths that the validation marks (with
  \<open>validateOnMount\<close>) are marked in \<open>initialTouches\<close> too.\<close>

definition reset :: "manager \<Rightarrow> reset_arg option \<Rightarrow> manager" where
  "reset m getState =
     (let (m1, state) = manager_get m;
          state1 = manipulator_reset m1 state getState;
          state2 = manipulator_validate m1 state1 (flag (validateOnMount m1));
          m2 = m1\<lparr>initialTouches := touches state2\<rparr>;
          state3 = state2\<lparr>isSubmitted := False, existsChanges := False\<rparr>
      in manager_set m2 state3)"

text \<open>The constructor, given what the client's cache holds under the form's name: the
  fields are assigned, \<open>get\<close> is called for the default to be written, and \<open>validate\<close>
  is called with \<open>validateOnMount\<close>.\<close>

definition FormManager_fields :: "params \<Rightarrow> form_state option \<Rightarrow> manager" where
  "FormManager_fields props data =
     \<lparr> validateHandler = props_validate props,
       validationSchema = props_validationSchema props,
       customValidators = [],
       onSubmit = props_onSubmit props,
       resetOnSubmit = props_resetOnSubmit props,
       validateOnMount = props_validateOnMount props,
       initialState = props_initialState props,
       initialErrors = (case props_initialErrors props of None \<Rightarrow> JObj False [] | Some e \<Rightarrow> e),
       initialTouches = (case props_initialTouches props of None \<Rightarrow> JObj False [] | Some t \<Rightarrow> t),
       cache = data,
       inflight = [] \<rparr>"

definition FormManager :: "params \<Rightarrow> form_state option \<Rightarrow> manager" where
  "FormManager props data =
     (let m = FormManager_fields props data;
          (m1, state) = manager_get m
      in validate m1 (validateOnMount m1))"

text \<open>The public mutations, to run a sequence of them.\<close>

datatype mutation =
    SetValues jsval
  | SetErrors jsval
  | SetTouches jsval
  | SetFieldValue string jsval
  | SetFieldError string "string option"
  | SetFieldTouched string bool
  | SetIsValid bool
  | SetIsSubmitted bool
  | SetExistsChanges bool
  | SetLoading bool
  | Validate "bool option"
  | AddFieldValidator string "jsval \<Rightarrow> string option"
  | RemoveFieldValidator string
  | Submit
  | Settle
  | Reset "reset_arg option"

fun mutate :: "mutation \<Rightarrow> manager \<Rightarrow> manager" where
  "mutate (SetValues v) m = setValues m v"
| "mutate (SetErrors e) m = setErrors m e"
| "mutate (SetTouches t) m = setTouches m t"
| "mutate (SetFieldValue k v) m = setFieldValue m k v"
| "mutate (SetFieldError k e) m = setFieldError m k e"
| "mutate (SetFieldTouched k b) m = setFieldTouched m k b"
| "mutate (SetIsValid b) m = setIsValid m b"
| "mutate (SetIsSubmitted b) m = setIsSubmitted m b"
| "mutate (SetExistsChanges b) m = setExistsChanges m b"
| "mutate (SetLoading b) m = setLoading m b"
| "mutate (Validate a) m = validate m a"
| "mutate (AddFieldValidator k f) m = addFieldValidator m k f"
| "mutate (RemoveFieldValidator k) m = removeFieldValidator m k"
| "mutate Submit m = submit m"
| "mutate Settle m = settle m"
| "mutate (Reset g) m = reset m g"

definition mutations :: "mutation list \<Rightarrow> manager \<Rightarrow> manager" where
  "mutations ops m = fold mutate ops m"

section \<open>Notions used by the statements\<close>

text \<open>The state after the three sources of errors have run (the errors emptied, the
  free-form validator, the field validators, the schema), before the validity and the
  touches are computed.\<close>

definition validatedErrors :: "manager \<Rightarrow> form_state \<Rightarrow> form_state" where
  "validatedErrors m state =
     runSchema m (runCustomValidators m (mergeHandlerErrors m (state\<lparr>errors := JObj False []\<rparr>)))"

text \<open>The test \<open>Boolean(errorsPairs.find(el => Boolean(el[1])))\<close>.\<close>

definition anyTruthy :: "(string \<times> jsval) list \<Rightarrow> bool" where
  "anyTruthy pairs = (List.find (\<lambda>el. truthy (snd el)) pairs \<noteq> None)"

text \<open>Two states that differ in their errors at most.\<close>

definition errorsOnly :: "form_state \<Rightarrow> form_state \<Rightarrow> bool" where
  "errorsOnly s s' =
     (values s' = values s \<and> touches s' = touches s \<and> isValid s' = isValid s
      \<and> loading s' = loading s \<and> existsChanges s' = existsChanges s
      \<and> isSubmitted s' = isSubmitted s)"

text \<open>The type \<open>FormErrors\<close>: every leaf under the root object is a message or
  \<open>undefined\<close>.\<close>

fun stringLeaves :: "jsval \<Rightarrow> bool" and stringLeavesProps :: "props \<Rightarrow> bool" where
  "stringLeaves (JStr s) = True"
| "stringLeaves JUndefined = True"
| "stringLeaves (JObj a kvs) = stringLeavesProps kvs"
| "stringLeaves v = False"
| "stringLeavesProps [] = True"
| "stringLeavesProps (kv # rest) = (stringLeaves (snd kv) \<and> stringLeavesProps rest)"

definition errorTree :: "jsval \<Rightarrow> bool" where
  "errorTree errs = stringLeavesProps (props_of errs)"

text \<open>The spec's words for validity: some leaf of the errors tree is a non-empty
  string.\<close>

fun nonEmptyStringLeaf :: "jsval \<Rightarrow> bool" and nonEmptyStringLeafProps :: "props \<Rightarrow> bool" where
  "nonEmptyStringLeaf (JStr s) = (s \<noteq> [])"
| "nonEmptyStringLeaf (JObj a kvs) = nonEmptyStringLeafProps kvs"
| "nonEmptyStringLeaf v = False"
| "nonEmptyStringLeafProps [] = False"
| "nonEmptyStringLeafProps (kv # rest) = (nonEmptyStringLeaf (snd kv) \<or> nonEmptyStringLeafProps rest)"

definition hasError :: "jsval \<Rightarrow> bool" where
  "hasError errs = nonEmptyStringLeafProps (props_of errs)"

text \<open>The mutations that run the manipulator's \<open>validate\<close> on the state they write.\<close>

fun validating :: "mutation \<Rightarrow> bool" where
  "validating (Validate a) = True"
| "validating (SetFieldValue k v) = True"
| "validating (Reset g) = True"
| "validating Submit = True"
| "validating op = False"

text \<open>The spec's words for the normalization of a violation's path: every \<open>[\<close> becomes
  a dot and every \<open>]\<close> is removed.\<close>

definition normalizeAllBrackets :: "string \<Rightarrow> string" where
  "normalizeAllBrackets path =
     filter (\<lambda>c. c \<noteq> CHR '']'') (map (\<lambda>c. if c = CHR ''['' then CHR ''.'' else c) path)"

text \<open>Two key lists that part at some position: neither is a prefix of the other.\<close>

fun diverge :: "string list \<Rightarrow> string list \<Rightarrow> bool" where
  "diverge (a # as) (b # bs) = (a \<noteq> b \<or> diverge as bs)"
| "diverge as bs = False"

text \<open>The names that every object inherits from \<open>Object.prototype\<close>, other than
  \<open>constructor\<close> and \<open>__proto__\<close>.  Reading one of them from an object that does not
  hold it gives a built-in function, which is outside the model.\<close>

definition inheritedName :: "string \<Rightarrow> bool" where
  "inheritedName k = (k \<in> set [''hasOwnProperty'', ''isPrototypeOf'', ''propertyIsEnumerable'',
     ''toLocaleString'', ''toString'', ''valueOf'', ''__defineGetter__'', ''__defineSetter__'',
     ''__lookupGetter__'', ''__lookupSetter__''])"

text \<open>An array index of JavaScript is a decimal numeral below \<open>2^32 - 1\<close>.  (\<open>isIndex\<close>
  of lodash accepts every numeral below \<open>Number.MAX_SAFE_INTEGER\<close>; an array keeps a
  larger one as a named property.)\<close>

definition arrayIndex :: "string \<Rightarrow> bool" where
  "arrayIndex k = (isIndex k \<and> digitsValue k < 4294967295)"

text \<open>Every key that the key list applies to an array of the record is an array index.
  (An array has its \<open>length\<close>, inherits its methods under other names, and loses its
  named properties when \<open>_.cloneDeep\<close> copies it; these are outside the model.)\<close>

fun indexedArrays :: "jsval \<Rightarrow> string list \<Rightarrow> bool" where
  "indexedArrays (JObj a kvs) (k # ks) =
     ((if a then arrayIndex k else True) \<and> indexedArrays (property (JObj a kvs) k) ks)"
| "indexedArrays v ks = True"



text \<open>A tree in which the names under one object are all array indices, or none of them
  is an index: \<open>_.set\<close> creates an array for the first and an object for the second.  The
  names of the root itself are not looked at.\<close>

fun uniformKeys :: "jsval \<Rightarrow> bool" and uniformProps :: "props \<Rightarrow> bool" where
  "uniformKeys (JObj a kvs) =
     ((list_all (\<lambda>kv. arrayIndex (fst kv)) kvs \<or> list_all (\<lambda>kv. \<not> isIndex (fst kv)) kvs)
      \<and> uniformProps kvs)"
| "uniformKeys v = True"
| "uniformProps [] = True"
| "uniformProps (kv # rest) = (uniformKeys (snd kv) \<and> uniformProps rest)"

text \<open>The leaves of a record as key lists, in the order of \<open>deepPairs\<close>, and the dotted
  path of a key list.\<close>

fun leafPaths :: "props \<Rightarrow> string list list" where
  "leafPaths [] = []"
| "leafPaths ((k, v) # rest) =
     (case v of JObj a kvs \<Rightarrow> map ((#) k) (leafPaths kvs) | _ \<Rightarrow> [[k]]) @ leafPaths rest"


section \<open>Example forms\<close>

text \<open>A form without validators, on the empty record.\<close>

definition plainParams :: params where
  "plainParams = \<lparr> props_initialState = JObj False [],
     props_initialErrors = None, props_initialTouches = None,
     props_validate = None, props_validationSchema = None, props_onSubmit = None,
     props_resetOnSubmit = None, props_validateOnMount = None \<rparr>"

text \<open>The form of the spec's scenarios A to D: the schema asks for an age of 18 at least.
  Its submit handler rejects.\<close>

definition ageSchema :: "jsval \<Rightarrow> (string \<times> string) list" where
  "ageSchema v =
     (case lodash_get v ''age'' of
        JNum n \<Rightarrow> (if n < 18 then [(''age'', ''too young'')] else [])
      | _ \<Rightarrow> [(''age'', ''required'')])"

definition ageParams :: "int \<Rightarrow> params" where
  "ageParams n = plainParams\<lparr> props_initialState := JObj False [(''age'', JNum n)],
     props_validationSchema := Some ageSchema, props_onSubmit := Some (\<lambda>state. Rejected) \<rparr>"

definition ageForm :: "int \<Rightarrow> manager" where
  "ageForm n = FormManager (ageParams n) None"

text \<open>A form whose free-form validator reports \<open>E1\<close> at \<open>a.b\<close>, with a field validator
  registered at \<open>a.b\<close> that reports \<open>E2\<close>.\<close>

definition nestedForm :: manager where
  "nestedForm = addFieldValidator
     (FormManager (plainParams\<lparr> props_validate :=
         Some (\<lambda>state. JObj False [(''a'', JObj False [(''b'', JStr ''E1'')])]) \<rparr>) None)
     ''a.b'' (\<lambda>v. Some ''E2'')"



text \<open>A state whose values hold an array: \<open>{a: [{b: 1}]}\<close>.\<close>

definition arrayState :: form_state where
  "arrayState = defaultState\<lparr>values :=
     JObj False [(''a'', JObj True [(''0'', JObj False [(''b'', JNum 1)])])]\<rparr>"

text \<open>A form constructed with an initial error at \<open>a\<close> and no validator.\<close>

definition initialErrorParams :: params where
  "initialErrorParams = plainParams\<lparr> props_initialErrors := Some (JObj False [(''a'', JStr ''x'')]) \<rparr>"

section \<open>Lemmas: paths\<close>

lemma isEqual_refl: "isEqual v v"
proof (induction v)
  case (JObj a xs)
  have "isEqual (the (map_of xs k)) (the (map_of xs k))" if "k \<in> fst ` set xs" for k
  proof -
    from that obtain w where w: "map_of xs k = Some w"
      by (metis domD dom_map_of_conv_image_fst)
    then have "(k, w) \<in> set xs" by (rule map_of_SomeD)
    then have "isEqual w w" using JObj.IH by fastforce
    with w show ?thesis by simp
  qed
  then show ?case by simp
qed simp_all

text \<open>A key of a bracket group is shorter than what the group was read from.\<close>

lemma unescape_length: "length (unescape s) \<le> length s"
proof (induction s rule: unescape.induct)
  case 1
  show ?case by simp
next
  case (2 c cs)
  show ?case
  proof (cases "c = CHR 0x5C")
    case False
    with "2.IH"(3) show ?thesis by simp
  next
    case True
    show ?thesis
    proof (cases cs)
      case Nil
      with True show ?thesis by simp
    next
      case (Cons d ds)
      show ?thesis
      proof (cases "d = CHR 0x5C")
        case True
        have "unescape (c # cs) = CHR 0x5C # unescape ds"
          using \<open>c = CHR 0x5C\<close> Cons True by simp
        moreover have "length (unescape ds) \<le> length ds"
          using "2.IH"(1) [OF \<open>c = CHR 0x5C\<close> Cons True] .
        ultimately show ?thesis using Cons by simp
      next
        case False
        have "unescape (c # cs) = unescape cs"
          using \<open>c = CHR 0x5C\<close> Cons False by simp
        moreover have "length (unescape cs) \<le> length cs"
          using "2.IH"(2) [OF \<open>c = CHR 0x5C\<close> Cons False] .
        ultimately show ?thesis by simp
      qed
    qed
  qed
qed

lemma quotedBody_length:
  "quotedBody q s = Some (raw, r) \<Longrightarrow> length raw + length r < length s"
proof (induction q s arbitrary: raw r rule: quotedBody.induct)
  case (1 q)
  then show ?case by simp
next
  case (2 q c cs)
  show ?case
  proof (cases "c = q")
    case True
    with "2.prems" show ?thesis by simp
  next
    case False
    show ?thesis
    proof (cases "c = CHR 0x5C")
      case True
      from "2.prems" False True obtain d ds raw' where
        cs: "cs = d # ds" and d: "\<not> (d = CHR 0x0A \<or> d = CHR 0x0D)"
        and b: "quotedBody q ds = Some (raw', r)" and raw: "raw = c # d # raw'"
        by (auto split: list.splits if_splits)
      from "2.IH"(1) [OF False True cs d b] show ?thesis using cs raw by simp
    next
      case notbs: False
      from "2.prems" False notbs obtain raw' where
        b: "quotedBody q cs = Some (raw', r)" and raw: "raw = c # raw'"
        by auto
      from "2.IH"(2) [OF False notbs b] show ?thesis using raw by simp
    qed
  qed
qed

lemma quotedKey_length: "quotedKey s = Some (k, r) \<Longrightarrow> length k + length r < length s"
proof -
  assume a: "quotedKey s = Some (k, r)"
  then obtain q s' raw r' where s: "s = q # s'" and b: "quotedBody q s' = Some (raw, r')"
    and k: "k = unescape raw" and r: "r' \<noteq> []" "r = tl r'"
    by (auto simp: quotedKey_def split: list.splits if_splits option.splits)
  have "length k \<le> length raw" unfolding k by (rule unescape_length)
  moreover have "length r < length r'" using r by (cases r') simp_all
  ultimately show ?thesis using quotedBody_length [OF b] s by simp
qed

lemma numberKey_length: "numberKey s = Some (k, r) \<Longrightarrow> length k + length r < length s"
proof -
  assume a: "numberKey s = Some (k, r)"
  define sign where "sign = (if s \<noteq> [] \<and> hd s = CHR ''-'' then ''-'' else [])"
  define r0 where "r0 = drop (length sign) s"
  define d1 where "d1 = takeWhile isDigit r0"
  define r1 where "r1 = dropWhile isDigit r0"
  have s: "s = sign @ r0"
    unfolding r0_def sign_def by (cases s) auto
  have r0: "r0 = d1 @ r1" unfolding d1_def r1_def by simp
  from a have c: "d1 \<noteq> [] \<and> (case r1 of
                 [] \<Rightarrow> None
               | c # r2 \<Rightarrow>
                   if c = CHR '']'' then Some (sign @ d1, r2)
                   else if c = CHR ''.'' then
                     (let d2 = takeWhile isDigit r2;
                          r3 = dropWhile isDigit r2
                      in if d2 \<noteq> [] \<and> r3 \<noteq> [] \<and> hd r3 = CHR '']''
                         then Some (sign @ d1 @ ''.'' @ d2, tl r3)
                         else None)
                   else None) = Some (k, r)"
    unfolding numberKey_def Let_def sign_def [symmetric] r0_def [symmetric]
      d1_def [symmetric] r1_def [symmetric]
    by (simp split: if_splits)
  then obtain c r2 where r1: "r1 = c # r2" by (cases r1) simp_all
  show ?thesis
  proof (cases "c = CHR '']''")
    case True
    with c r1 have "k = sign @ d1" "r = r2" by simp_all
    then show ?thesis using s r0 r1 by simp
  next
    case False
    define d2 where "d2 = takeWhile isDigit r2"
    define r3 where "r3 = dropWhile isDigit r2"
    have r2: "r2 = d2 @ r3" unfolding d2_def r3_def by simp
    from c r1 False have "r3 \<noteq> []" "k = sign @ d1 @ ''.'' @ d2" "r = tl r3"
      by (simp_all add: Let_def d2_def [symmetric] r3_def [symmetric] split: if_splits)
    moreover from this have "length r < length r3" by (cases r3) simp_all
    ultimately show ?thesis using s r0 r1 r2 by simp
  qed
qed

lemma bracketKey_length: "bracketKey s = Some (k, r) \<Longrightarrow> length k + length r < length s"
  by (auto simp: bracketKey_def split: option.splits
      dest: numberKey_length quotedKey_length)

text \<open>A key of a string that holds a special character is shorter than the string.\<close>

lemma scanPath_length:
  "t \<in> set (scanPath cur s) \<Longrightarrow>
   length t \<le> length (nameRead cur) + length s
   \<and> (list_ex isSpecial s \<longrightarrow> length t < length (nameRead cur) + length s)"
proof (induction cur s arbitrary: t rule: scanPath.induct)
  case (1 cur)
  then show ?case by (cases cur) simp_all
next
  case (2 cur c cs)
  show ?case
  proof (cases "isSpecial c")
    case False
    with "2.prems" have "t \<in> set (scanPath (Some (nameRead cur @ [c])) cs)" by simp
    from "2.IH"(1) [OF False this] False show ?thesis by simp
  next
    case True
    from "2.prems" True consider
        (name) "t \<in> set (nameDone cur)"
      | (key) key rest where "c = CHR ''[''" "bracketKey cs = Some (key, rest)"
          "t = key \<or> t \<in> set (scanPath None rest)"
      | (skip) "(if c = CHR ''['' then bracketKey cs else None) = None"
          "t = [] \<or> t \<in> set (scanPath None cs)"
      by (auto split: option.splits if_splits)
    then show ?thesis
    proof cases
      case name
      then show ?thesis using True by (cases cur) simp_all
    next
      case key
      from key(2) have l: "length key + length rest < length cs" by (rule bracketKey_length)
      from key(3) show ?thesis
      proof
        assume "t = key"
        with l show ?thesis by simp
      next
        assume m: "t \<in> set (scanPath None rest)"
        have h: "(if c = CHR ''['' then bracketKey cs else None) = Some (key, rest)"
          using key(1,2) by simp
        have nn: "\<not> \<not> isSpecial c" using True by simp
        have "length t \<le> length rest"
          using "2.IH"(3) [OF nn h refl m] by simp
        with l show ?thesis by simp
      qed
    next
      case skip
      from skip(2) show ?thesis
      proof
        assume "t = []"
        then show ?thesis by simp
      next
        assume m: "t \<in> set (scanPath None cs)"
        have nn: "\<not> \<not> isSpecial c" using True by simp
        have "length t \<le> length cs"
          using "2.IH"(2) [OF nn skip(1) m] by simp
        then show ?thesis by simp
      qed
    qed
  qed
qed

lemma hasIndexGroup_bracket: "hasIndexGroup p \<Longrightarrow> CHR ''['' \<in> set p"
  by (induction p) (auto split: if_splits)

lemma deep_special: "isDeepProp p \<Longrightarrow> list_ex isSpecial p"
  by (auto simp: isDeepProp_def list_ex_iff isSpecial_def dest: hasIndexGroup_bracket)


lemma stringToPath_shorter:
  assumes "isDeepProp p" and "t \<in> set (stringToPath p)"
  shows "length t < length p"
proof -
  have ne: "p \<noteq> []" using assms(1) by (auto simp: isDeepProp_def)
  from assms(2) have "t = [] \<or> t \<in> set (scanPath None p)"
    by (auto simp: stringToPath_def split: if_splits)
  then show ?thesis
  proof
    assume "t = []"
    with ne show ?thesis by simp
  next
    assume "t \<in> set (scanPath None p)"
    then show ?thesis
      using scanPath_length [of t None p] deep_special [OF assms(1)] by simp
  qed
qed

lemma deep_not_token: "isDeepProp p \<Longrightarrow> p \<notin> set (stringToPath p)"
  using stringToPath_shorter by blast

lemma hasKey_assign: "isObject obj \<Longrightarrow> hasKey q (assign obj k v) = (q = k \<or> hasKey q obj)"
  by (cases obj) (auto simp: hasKey_def dom_update)

lemma hasKey_isObject: "hasKey q obj \<Longrightarrow> isObject obj"
  by (cases obj) (simp_all add: hasKey_def)

lemma isObject_assign [simp]: "isObject (assign obj k v) = isObject obj"
  by (cases obj) simp_all

lemma isObject_baseSet [simp]: "isObject (baseSet obj ks v) = isObject obj"
  by (induction obj ks v rule: baseSet.induct) (simp_all add: Let_def)

lemma hasKey_baseSet_mono: "hasKey q obj \<Longrightarrow> hasKey q (baseSet obj ks v)"
proof (cases ks)
  case Nil
  then show "hasKey q obj \<Longrightarrow> ?thesis" by simp
next
  case (Cons k ks')
  assume h: "hasKey q obj"
  then have o: "isObject obj" by (rule hasKey_isObject)
  show ?thesis
    using h o Cons by (cases ks') (simp_all add: hasKey_assign Let_def)
qed

lemma hasKey_baseSet_new:
  "hasKey q (baseSet obj ks v) \<Longrightarrow> hasKey q obj \<or> q \<in> set ks"
proof (cases ks)
  case Nil
  then show "hasKey q (baseSet obj ks v) \<Longrightarrow> ?thesis" by simp
next
  case (Cons k ks')
  assume h: "hasKey q (baseSet obj ks v)"
  show ?thesis
  proof (cases "isObject obj")
    case True
    with h Cons show ?thesis
      by (cases ks') (auto simp: hasKey_assign Let_def split: if_splits)
  next
    case False
    then have "baseSet obj ks v = obj"
      using Cons by (cases ks'; cases obj) simp_all
    with h show ?thesis by simp
  qed
qed

text \<open>Writing at the path \<open>q\<close> does not change how the path \<open>p\<close> is cut into keys,
  unless \<open>p\<close> has a dot or a bracket group and the write makes the whole string \<open>p\<close> a
  property.\<close>

lemma castPath_lodash_set:
  assumes "isDeepProp p \<Longrightarrow> p \<in> set (castPath q obj) \<Longrightarrow> hasKey p obj"
  shows "castPath p (lodash_set obj q v) = castPath p obj"
proof (cases "isDeepProp p")
  case False
  then show ?thesis by (simp add: castPath_def isKey_def)
next
  case True
  have "hasKey p (lodash_set obj q v) = hasKey p obj"
  proof
    assume "hasKey p (lodash_set obj q v)"
    then have "hasKey p obj \<or> p \<in> set (castPath q obj)"
      unfolding lodash_set_def by (rule hasKey_baseSet_new)
    then show "hasKey p obj" using assms True by blast
  next
    assume "hasKey p obj"
    then show "hasKey p (lodash_set obj q v)"
      unfolding lodash_set_def by (rule hasKey_baseSet_mono)
  qed
  then show ?thesis by (simp add: castPath_def isKey_def)
qed

lemma castPath_lodash_set_same: "castPath p (lodash_set obj p v) = castPath p obj"
proof (rule castPath_lodash_set)
  assume d: "isDeepProp p" and m: "p \<in> set (castPath p obj)"
  show "hasKey p obj"
  proof (rule ccontr)
    assume "\<not> hasKey p obj"
    with d have "castPath p obj = stringToPath p" by (simp add: castPath_def isKey_def)
    with m deep_not_token [OF d] show False by simp
  qed
qed

lemma property_assign: "isObject obj \<Longrightarrow> property (assign obj k v) k = v"
  by (cases obj) (simp_all add: property_def update_conv')

lemma walk_baseSet:
  "isObject obj \<Longrightarrow> ks \<noteq> [] \<Longrightarrow> \<forall>k \<in> set ks. \<not> unsafeKey k \<Longrightarrow> walk (baseSet obj ks v) ks = v"
proof (induction ks arbitrary: obj)
  case Nil
  then show ?case by simp
next
  case (Cons k ks)
  show ?case
  proof (cases ks)
    case Nil
    then show ?thesis using Cons.prems by (simp add: property_assign)
  next
    case (Cons k' ks')
    define nv where "nv = (if isObject (property obj k) then property obj k
             else if isIndex k' then JObj True [] else JObj False [])"
    have "isObject nv" by (simp add: nv_def)
    then have ih: "walk (baseSet nv ks v) ks = v"
      using Cons.IH [of nv] Cons.prems Cons by simp
    have "baseSet obj (k # ks) v = assign obj k (baseSet nv ks v)"
      using Cons.prems Cons by (simp add: Let_def nv_def)
    then have "walk (baseSet obj (k # ks) v) (k # ks) = walk (baseSet nv ks v) ks"
      using Cons.prems(1) by (simp add: property_assign del: baseSet.simps)
    with ih show ?thesis by simp
  qed
qed

lemma get_set:
  assumes "isObject obj" and "castPath p obj \<noteq> []"
    and "\<forall>k \<in> set (castPath p obj). \<not> unsafeKey k"
  shows "lodash_get (lodash_set obj p v) p = v"
proof -
  have "lodash_get (lodash_set obj p v) p = walk (lodash_set obj p v) (castPath p obj)"
    using assms(2) by (simp add: lodash_get_def castPath_lodash_set_same baseGet_def)
  then show ?thesis
    using assms walk_baseSet [of obj "castPath p obj" v] by (simp add: lodash_set_def)
qed

section \<open>Lemmas: validation\<close>

lemma errorsOnly_refl: "errorsOnly s s"
  by (simp add: errorsOnly_def)

lemma errorsOnly_trans: "errorsOnly s s' \<Longrightarrow> errorsOnly s' s'' \<Longrightarrow> errorsOnly s s''"
  by (simp add: errorsOnly_def)

lemma errorsOnly_update: "errorsOnly s (s\<lparr>errors := e\<rparr>)"
  by (simp add: errorsOnly_def)

lemma setError_errorsOnly: "errorsOnly s (setError s k v)"
  by (simp add: setError_def Let_def errorsOnly_def)

lemma runCustomValidator_errorsOnly: "errorsOnly s (runCustomValidator kf s)"
  by (simp add: runCustomValidator_def Let_def setError_errorsOnly errorsOnly_refl)

lemma fold_errorsOnly:
  assumes "\<And>x s. errorsOnly s (f x s)"
  shows "errorsOnly s (fold f xs s)"
proof (induction xs arbitrary: s)
  case Nil
  show ?case by (simp add: errorsOnly_refl)
next
  case (Cons x xs)
  have a: "errorsOnly s (f x s)" by (rule assms)
  have b: "errorsOnly (f x s) (fold f xs (f x s))" by (rule Cons.IH)
  show ?case using errorsOnly_trans [OF a b] by simp
qed

lemma mergeHandlerErrors_errorsOnly: "errorsOnly s (mergeHandlerErrors m s)"
  by (simp add: mergeHandlerErrors_def errorsOnly_def split: option.splits)

lemma runCustomValidators_errorsOnly: "errorsOnly s (runCustomValidators m s)"
  unfolding runCustomValidators_def
  by (rule fold_errorsOnly) (rule runCustomValidator_errorsOnly)

lemma runSchema_errorsOnly: "errorsOnly s (runSchema m s)"
proof (cases "validationSchema m")
  case None
  then show ?thesis by (simp add: runSchema_def errorsOnly_refl)
next
  case (Some f)
  have "errorsOnly s (fold setSchemaError (f (values s)) s)"
    by (rule fold_errorsOnly) (simp add: setSchemaError_def setError_errorsOnly)
  with Some show ?thesis by (simp add: runSchema_def)
qed

lemma validatedErrors_errorsOnly: "errorsOnly s (validatedErrors m s)"
proof -
  let ?s1 = "s\<lparr>errors := JObj False []\<rparr>"
  let ?s2 = "mergeHandlerErrors m ?s1"
  let ?s3 = "runCustomValidators m ?s2"
  have "errorsOnly s ?s2"
    by (rule errorsOnly_trans [OF errorsOnly_update mergeHandlerErrors_errorsOnly])
  then have "errorsOnly s ?s3"
    by (rule errorsOnly_trans [OF _ runCustomValidators_errorsOnly])
  then have "errorsOnly s (runSchema m ?s3)"
    by (rule errorsOnly_trans [OF _ runSchema_errorsOnly])
  then show ?thesis by (simp add: validatedErrors_def)
qed

text \<open>\<open>validate\<close> in terms of the state after the three sources.\<close>

lemma manipulator_validate_alt:
  "manipulator_validate m s allTouched =
     (let s4 = validatedErrors m s;
          pairs = objectDeepPairs (errors s4)
      in (if allTouched then s4\<lparr>touches := fold markTouched pairs (touches s4)\<rparr> else s4)
           \<lparr>isValid := \<not> anyTruthy pairs\<rparr>)"
  by (simp add: manipulator_validate_def validatedErrors_def Let_def anyTruthy_def)

lemma manipulator_validate_keeps:
  "values (manipulator_validate m s b) = values s
   \<and> loading (manipulator_validate m s b) = loading s
   \<and> existsChanges (manipulator_validate m s b) = existsChanges s
   \<and> isSubmitted (manipulator_validate m s b) = isSubmitted s
   \<and> touches (manipulator_validate m s False) = touches s"
  using validatedErrors_errorsOnly [of s m]
  by (simp add: manipulator_validate_alt Let_def errorsOnly_def)

lemma validatedErrors_cong:
  "validateHandler m' = validateHandler m \<Longrightarrow> customValidators m' = customValidators m
   \<Longrightarrow> validationSchema m' = validationSchema m
   \<Longrightarrow> validatedErrors m' s = validatedErrors m s"
  by (simp add: validatedErrors_def runSchema_def runCustomValidators_def mergeHandlerErrors_def)

lemma manipulator_validate_cong:
  "validateHandler m' = validateHandler m \<Longrightarrow> customValidators m' = customValidators m
   \<Longrightarrow> validationSchema m' = validationSchema m
   \<Longrightarrow> manipulator_validate m' s b = manipulator_validate m s b"
  by (simp add: manipulator_validate_alt validatedErrors_cong [of m' m])

section \<open>Lemmas: the manager\<close>

lemma manager_get_fields:
  "validateHandler (fst (manager_get m)) = validateHandler m"
  "customValidators (fst (manager_get m)) = customValidators m"
  "validationSchema (fst (manager_get m)) = validationSchema m"
  "onSubmit (fst (manager_get m)) = onSubmit m"
  "resetOnSubmit (fst (manager_get m)) = resetOnSubmit m"
  "validateOnMount (fst (manager_get m)) = validateOnMount m"
  "initialState (fst (manager_get m)) = initialState m"
  "initialErrors (fst (manager_get m)) = initialErrors m"
  "initialTouches (fst (manager_get m)) = initialTouches m"
  "inflight (fst (manager_get m)) = inflight m"
  by (simp_all add: manager_get_def manager_set_def Let_def split: option.splits)

lemma manager_get_validate [simp]:
  "manipulator_validate (fst (manager_get m)) s b = manipulator_validate m s b"
  by (rule manipulator_validate_cong) (simp_all add: manager_get_fields)


lemma validate_cache:
  "cache (validate m a) = Some (manipulator_validate m (snd (manager_get m)) (flag a))"
  by (simp add: validate_def manager_set_def split_def Let_def)

lemma find_Some_iff_ex: "(List.find P xs \<noteq> None) = (\<exists>x \<in> set xs. P x)"
  by (induction xs) auto

lemma deepPairs_truthy:
  "stringLeavesProps kvs \<Longrightarrow>
   (\<exists>el \<in> set (deepPairs pre kvs). truthy (snd el)) = nonEmptyStringLeafProps kvs"
proof (induction pre kvs rule: deepPairs.induct)
  case (1 pre)
  show ?case by simp
next
  case (2 pre k a kvs rest)
  then show ?case by auto
qed auto

lemma anyTruthy_hasError:
  "errorTree errs \<Longrightarrow> anyTruthy (objectDeepPairs errs) = hasError errs"
proof -
  assume "errorTree errs"
  then have "(\<exists>el \<in> set (deepPairs [] (props_of errs)). truthy (snd el))
      = nonEmptyStringLeafProps (props_of errs)"
    unfolding errorTree_def by (rule deepPairs_truthy)
  then show ?thesis
    by (simp only: hasError_def objectDeepPairs_def find_Some_iff_ex anyTruthy_def)
qed

lemma manipulator_validate_isValid:
  assumes "errorTree (errors (manipulator_validate m s b))"
  shows "isValid (manipulator_validate m s b)
     = (\<not> hasError (errors (manipulator_validate m s b)))"
proof -
  have e: "errors (manipulator_validate m s b) = errors (validatedErrors m s)"
    by (simp add: manipulator_validate_alt Let_def)
  have v: "isValid (manipulator_validate m s b)
      = (\<not> anyTruthy (objectDeepPairs (errors (validatedErrors m s))))"
    by (simp add: manipulator_validate_alt Let_def)
  from assms have "errorTree (errors (validatedErrors m s))" by (simp add: e)
  then show ?thesis
    using anyTruthy_hasError [of "errors (validatedErrors m s)"] by (simp only: e v)
qed

lemma validating_cache:
  "validating op \<Longrightarrow>
   \<exists>s b st. cache (mutate op m) = Some st \<and> errors st = errors (manipulator_validate m s b)
       \<and> isValid st = isValid (manipulator_validate m s b)"
proof (cases op)
  case (Validate a)
  then show ?thesis by (auto simp: validate_cache)
next
  case (SetFieldValue k v)
  then show ?thesis
    by (auto simp: setFieldValue_def Let_def split_def manager_set_def)
next
  case (Reset g)
  show ?thesis
    unfolding Reset
    by (simp add: reset_def Let_def split_def manager_set_def) blast
next
  case Submit
  show ?thesis
    unfolding Submit
    by (simp add: submit_def Let_def split_def manager_set_def) blast
qed (simp_all)

lemma mutate_fields:
  "initialState (mutate op m) = initialState m
   \<and> validateOnMount (mutate op m) = validateOnMount m
   \<and> (\<not> flag (validateOnMount m) \<longrightarrow> initialTouches (mutate op m) = initialTouches m)"
proof (cases op)
  case (Reset g)
  show ?thesis
    unfolding Reset
    by (simp add: reset_def Let_def split_def manager_set_def manager_get_fields
        manipulator_validate_keeps manipulator_reset_def)
next
  case Submit
  show ?thesis
    unfolding Submit
    by (simp add: submit_def Let_def split_def manager_set_def manager_get_fields)
next
  case Settle
  show ?thesis
    unfolding Settle
    by (simp add: settle_def submit_then_def submit_catch_def manager_set_def Let_def
        split: list.splits option.splits outcome.splits)
qed (simp_all add: setValues_def setErrors_def setTouches_def setFieldValue_def
      setFieldError_def setFieldTouched_def setIsValid_def setIsSubmitted_def
      setExistsChanges_def setLoading_def validate_def addFieldValidator_def
      removeFieldValidator_def Let_def split_def manager_set_def manager_get_fields)

lemma mutations_fields:
  "initialState (mutations ops m) = initialState m
   \<and> validateOnMount (mutations ops m) = validateOnMount m
   \<and> (\<not> flag (validateOnMount m) \<longrightarrow> initialTouches (mutations ops m) = initialTouches m)"
  unfolding mutations_def
proof (induction ops arbitrary: m)
  case Nil
  show ?case by simp
next
  case (Cons op ops)
  show ?case using Cons.IH [of "mutate op m"] mutate_fields [of op m] by simp
qed

lemma FormManager_fields_of:
  "initialState (FormManager props data) = props_initialState props
   \<and> validateOnMount (FormManager props data) = props_validateOnMount props
   \<and> initialTouches (FormManager props data)
       = (case props_initialTouches props of None \<Rightarrow> JObj False [] | Some t \<Rightarrow> t)"
  by (simp add: FormManager_def Let_def split_def validate_def manager_set_def
      manager_get_fields) (simp add: FormManager_fields_def)

lemma reset_cache:
  "cache (reset m None)
     = Some ((manipulator_validate m (manipulator_reset m s0 None) (flag (validateOnMount m)))
              \<lparr>isSubmitted := False, existsChanges := False\<rparr>)"
proof -
  have "manipulator_reset (fst (manager_get m)) s None = manipulator_reset m s0 None" for s
    by (simp add: manipulator_reset_def manager_get_fields)
  then show ?thesis
    by (simp add: reset_def Let_def split_def manager_set_def manager_get_fields)
qed

section \<open>Lemmas: marking the touches\<close>

lemma diverge_sym: "diverge as bs \<Longrightarrow> diverge bs as"
  by (induction as bs rule: diverge.induct) auto

lemma walk_undefined [simp]: "walk JUndefined ks = JUndefined"
  by (cases ks) simp_all








lemma isObject_lodash_set [simp]: "isObject (lodash_set t q v) = isObject t"
  by (simp add: lodash_set_def)







lemma leafPaths_leaf: "\<not> isObject v \<Longrightarrow> leafPaths ((k, v) # rest) = [k] # leafPaths rest"
  by (cases v) simp_all






















section \<open>The claims\<close>

subsection \<open>C1: validity follows the errors\<close>

text \<open>
  C1, as stated, fails for \<open>setErrors\<close>: it writes the new errors and leaves \<open>isValid\<close>
  as it was.  On the form without validators, which is valid after construction, setting
  the errors to \<open>{a: 'x'}\<close> writes a state that has a non-empty message and is still
  valid.
\<close>

theorem setErrors_keeps_isValid_counterexample:
  "isValid (the (cache (setErrors (FormManager plainParams None) (JObj False [(''a'', JStr ''x'')]))))
   \<and> hasError (errors (the (cache
        (setErrors (FormManager plainParams None) (JObj False [(''a'', JStr ''x'')])))))"
  by code_simp

text \<open>
  \<open>setFieldError\<close> does recompute the flag, but without the negation that \<open>validate\<close>
  has: after setting the message \<open>x\<close> at \<open>a\<close> the state written is valid, and after
  clearing it again the state written is not.
\<close>

lemma setFieldError_inverted:
  "isValid (the (cache (setFieldError (FormManager plainParams None) ''a'' (Some ''x''))))
   \<and> hasError (errors (the (cache (setFieldError (FormManager plainParams None) ''a'' (Some ''x'')))))
   \<and> \<not> isValid (the (cache (setFieldError
        (setFieldError (FormManager plainParams None) ''a'' (Some ''x'')) ''a'' None)))
   \<and> \<not> hasError (errors (the (cache (setFieldError
        (setFieldError (FormManager plainParams None) ''a'' (Some ''x'')) ''a'' None))))"
  by code_simp

text \<open>
  C1, amended: for the mutations that run the validation before they write
  (\<open>validate\<close>, \<open>setFieldValue\<close>, \<open>reset\<close>, and \<open>submit\<close> up to the call of the handler),
  the state written is valid if and only if no leaf of its errors tree is a non-empty
  string, the leaves being messages or \<open>undefined\<close>; \<open>setErrors\<close> writes the validity it
  read.
\<close>

theorem validating_mutations_isValid:
  "(validating op \<and> errorTree (errors (the (cache (mutate op m))))
      \<longrightarrow> isValid (the (cache (mutate op m))) = (\<not> hasError (errors (the (cache (mutate op m))))))
   \<and> isValid (the (cache (setErrors m e))) = isValid (snd (manager_get m))"
proof -
  have "isValid (the (cache (mutate op m))) = (\<not> hasError (errors (the (cache (mutate op m)))))"
    if v: "validating op" and t: "errorTree (errors (the (cache (mutate op m))))"
  proof -
    from validating_cache [OF v, of m] obtain s b st where
      st: "cache (mutate op m) = Some st" "errors st = errors (manipulator_validate m s b)"
        "isValid st = isValid (manipulator_validate m s b)" by blast
    with t manipulator_validate_isValid [of m s b] show ?thesis by simp
  qed
  moreover have "isValid (the (cache (setErrors m e))) = isValid (snd (manager_get m))"
    by (simp add: setErrors_def split_def manager_set_def Let_def)
  ultimately show ?thesis by blast
qed

theorem validating_mutations_isValid_witness:
  "hasError (errors (the (cache (mutate (SetFieldValue ''age'' (JNum 10)) (ageForm 20)))))
   \<and> \<not> isValid (the (cache (mutate (SetFieldValue ''age'' (JNum 10)) (ageForm 20))))
   \<and> isValid (the (cache (setErrors (ageForm 20) (JObj False [(''age'', JStr ''x'')]))))"
proof -
  have v: "validating (SetFieldValue ''age'' (JNum 10))" by simp
  have t: "errorTree (errors (the (cache (mutate (SetFieldValue ''age'' (JNum 10)) (ageForm 20)))))"
    by code_simp
  have h: "hasError (errors (the (cache (mutate (SetFieldValue ''age'' (JNum 10)) (ageForm 20)))))"
    by code_simp
  have g: "isValid (snd (manager_get (ageForm 20)))" by code_simp
  show ?thesis
    using validating_mutations_isValid
      [of "SetFieldValue ''age'' (JNum 10)" "ageForm 20" "JObj False [(''age'', JStr ''x'')]"]
      v t h g
    by blast
qed

subsection \<open>C2: reset\<close>

text \<open>
  C2, as stated, fails for the errors: \<open>reset\<close> runs the validation after the
  manipulator's reset, and the validation starts by emptying the errors.  A form
  constructed with the initial error \<open>{a: 'x'}\<close> and no validator has no error after
  \<open>reset()\<close>.  It fails for the touches when \<open>validateOnMount\<close> is set: that
  validation marks the paths with errors, so the form of scenario A, constructed without
  initial touches, has \<open>age\<close> touched after \<open>reset()\<close>.
\<close>

theorem reset_initial_errors_counterexample:
  "initialErrors (mutations [SetFieldValue ''n'' (JNum 1), Submit] (FormManager initialErrorParams None))
     = JObj False [(''a'', JStr ''x'')]
   \<and> errors (the (cache (reset
        (mutations [SetFieldValue ''n'' (JNum 1), Submit] (FormManager initialErrorParams None))
        None)))
     = JObj False []
   \<and> initialTouches (FormManager_fields ((ageParams 10)\<lparr>props_validateOnMount := Some True\<rparr>) None)
     = JObj False []
   \<and> touches (the (cache (reset
        (setFieldTouched (FormManager ((ageParams 10)\<lparr>props_validateOnMount := Some True\<rparr>) None)
           ''age'' False)
        None)))
     = JObj False [(''age'', JBool True)]"
  by code_simp

text \<open>
  C2, amended: after any sequence of mutations, \<open>reset()\<close> with no override writes a state
  whose values are the initial values of the construction, with \<open>isSubmitted\<close> and
  \<open>existsChanges\<close> false; its errors are the ones the validation computes on the reset
  state, not the initial errors; its touches are the initial touches of the construction
  when \<open>validateOnMount\<close> is not set.
\<close>

theorem reset_restores:
  "values (the (cache (reset (mutations ops (FormManager props data)) None)))
       = props_initialState props
   \<and> isSubmitted (the (cache (reset (mutations ops (FormManager props data)) None))) = False
   \<and> existsChanges (the (cache (reset (mutations ops (FormManager props data)) None))) = False
   \<and> errors (the (cache (reset (mutations ops (FormManager props data)) None)))
       = errors (validatedErrors (mutations ops (FormManager props data))
           (manipulator_reset (mutations ops (FormManager props data)) defaultState None))
   \<and> (\<not> flag (props_validateOnMount props) \<longrightarrow>
        touches (the (cache (reset (mutations ops (FormManager props data)) None)))
          = (case props_initialTouches props of None \<Rightarrow> JObj False [] | Some t \<Rightarrow> t))"
proof -
  let ?m = "mutations ops (FormManager props data)"
  let ?r = "manipulator_reset ?m defaultState None"
  let ?st = "the (cache (reset ?m None))"
  have f: "initialState ?m = props_initialState props"
    "validateOnMount ?m = props_validateOnMount props"
    using mutations_fields [of ops "FormManager props data"] FormManager_fields_of [of props data]
    by simp_all
  have t: "initialTouches ?m
      = (case props_initialTouches props of None \<Rightarrow> JObj False [] | Some t \<Rightarrow> t)"
    if "\<not> flag (props_validateOnMount props)"
    using that mutations_fields [of ops "FormManager props data"]
      FormManager_fields_of [of props data]
    by simp
  have st: "?st = (manipulator_validate ?m ?r (flag (props_validateOnMount props)))
      \<lparr>isSubmitted := False, existsChanges := False\<rparr>"
    using reset_cache [of "mutations ops (FormManager props data)" defaultState] by (simp add: f)
  have r: "values ?r = props_initialState props" "touches ?r = initialTouches ?m"
    by (simp_all add: manipulator_reset_def f)
  have "values ?st = props_initialState props"
    using manipulator_validate_keeps
      [of "mutations ops (FormManager props data)"
          "manipulator_reset (mutations ops (FormManager props data)) defaultState None"]
    by (simp add: st r)
  moreover have "isSubmitted ?st = False" "existsChanges ?st = False"
    by (simp_all add: st)
  moreover have "errors ?st = errors (validatedErrors ?m ?r)"
    by (simp add: st manipulator_validate_alt Let_def)
  moreover have "touches ?st
      = (case props_initialTouches props of None \<Rightarrow> JObj False [] | Some t \<Rightarrow> t)"
    if "\<not> flag (props_validateOnMount props)"
    using that t manipulator_validate_keeps
      [of "mutations ops (FormManager props data)"
          "manipulator_reset (mutations ops (FormManager props data)) defaultState None"]
    by (simp add: st r)
  ultimately show ?thesis by blast
qed

theorem reset_restores_witness:
  "values (the (cache (reset
      (mutations [SetFieldValue ''age'' (JNum 30), Submit] (FormManager (ageParams 10) None)) None)))
     = JObj False [(''age'', JNum 10)]
   \<and> touches (the (cache (reset
      (mutations [SetFieldValue ''age'' (JNum 30), Submit] (FormManager (ageParams 10) None)) None)))
     = JObj False []
   \<and> touches (the (cache
      (mutations [SetFieldValue ''age'' (JNum 30), Submit] (FormManager (ageParams 10) None))))
     = JObj False [(''age'', JBool True)]"
proof -
  have p: "props_initialState (ageParams 10) = JObj False [(''age'', JNum 10)]"
    "\<not> flag (props_validateOnMount (ageParams 10))"
    "props_initialTouches (ageParams 10) = None"
    by (simp_all add: ageParams_def plainParams_def)
  have b: "touches (the (cache
      (mutations [SetFieldValue ''age'' (JNum 30), Submit] (FormManager (ageParams 10) None))))
     = JObj False [(''age'', JBool True)]"
    by code_simp
  show ?thesis
    using reset_restores
      [of "[SetFieldValue ''age'' (JNum 30), Submit]" "ageParams 10" None] p b
    by simp
qed

subsection \<open>C3: field validators and earlier errors\<close>

text \<open>
  C3 does not hold of the code for a nested path.  The guard of the loop is
  \<open>key in state.errors\<close>, which looks for the whole string \<open>a.b\<close> among the properties
  of the errors object; the error that the free-form validator reported at \<open>a.b\<close> lies
  under the property \<open>a\<close>.  So the validator registered at \<open>a.b\<close> runs, and its message
  replaces the earlier one.
\<close>

theorem nested_field_validator_not_skipped:
  "getError (mergeHandlerErrors nestedForm ((snd (manager_get nestedForm))\<lparr>errors := JObj False []\<rparr>))
      ''a.b'' = JStr ''E1''
   \<and> getError (runCustomValidators nestedForm
        (mergeHandlerErrors nestedForm ((snd (manager_get nestedForm))\<lparr>errors := JObj False []\<rparr>)))
      ''a.b'' = JStr ''E2''
   \<and> errors (the (cache (validate nestedForm None)))
      = JObj False [(''a'', JObj False [(''b'', JStr ''E2'')])]"
  by code_simp

subsection \<open>C4: the paths of schema violations\<close>

text \<open>
  C4 does not hold of the code for a path with more than one bracket pair.
  \<open>err.path.replace('[', '.').replace(']', '')\<close> replaces the first \<open>[\<close> and the first
  \<open>]\<close> only, so the path handed to \<open>setError\<close> for \<open>a[0].b[1]\<close> is \<open>a.0.b[1]\<close>, where
  the spec's normalization gives \<open>a.0.b.1\<close>.
\<close>

theorem normalizePath_first_bracket_only:
  "normalizePath ''a[0].b[1]'' = ''a.0.b[1]''
   \<and> normalizeAllBrackets ''a[0].b[1]'' = ''a.0.b.1''
   \<and> setSchemaError (''a[0].b[1]'', msg) state = setError state ''a.0.b[1]'' (Some msg)"
  by (simp add: normalizePath_def normalizeAllBrackets_def setSchemaError_def)

subsection \<open>C5: reading what was written\<close>

text \<open>
  C5, as stated, fails in two ways.  \<open>_.set\<close> refuses the key \<open>prototype\<close>: writing at it
  leaves the record as it was, and reading the path gives \<open>undefined\<close>.  And the non-empty
  path \<open>[]]\<close> is cut into no key at all: nothing is written, and reading it gives
  \<open>undefined\<close>.
\<close>

theorem setValue_prototype_counterexample:
  "\<not> isEqual
      (getValue (setValue (defaultState\<lparr>values := JObj False []\<rparr>) ''prototype'' (JStr ''x''))
         ''prototype'')
      (JStr ''x'')
   \<and> castPath ''[]]'' (JObj False []) = []
   \<and> getValue (setValue (defaultState\<lparr>values := JObj False []\<rparr>) ''[]]'' (JStr ''x'')) ''[]]''
     = JUndefined"
  by code_simp

text \<open>
  C5, amended: reading a path after writing a value at it gives a value deep-equal to the
  one written, for every value and for every state and path such that
  \<^item> the values of the state are an object,
  \<^item> the path is cut into one key at least,
  \<^item> none of its keys is \<open>__proto__\<close>, \<open>constructor\<close> or \<open>prototype\<close>,
  \<^item> none of its keys is a name that every object inherits (\<open>hasOwnProperty\<close>,
    \<open>isPrototypeOf\<close>, \<open>propertyIsEnumerable\<close>, \<open>toLocaleString\<close>, \<open>toString\<close>, \<open>valueOf\<close>,
    \<open>__defineGetter__\<close>, \<open>__defineSetter__\<close>, \<open>__lookupGetter__\<close>, \<open>__lookupSetter__\<close>),
  \<^item> every key that the path applies to an array of the values is an array index.

  The last two conditions keep the path within the own properties that the model of the
  values has; the proof does not use them.
\<close>

theorem setValue_getValue:
  assumes "isObject (values state)"
    and "castPath key (values state) \<noteq> []"
    and "\<not> list_ex unsafeKey (castPath key (values state))"
    and "\<not> list_ex inheritedName (castPath key (values state))"
    and "indexedArrays (values state) (castPath key (values state))"
  shows "isEqual (getValue (setValue state key v) key) v"
proof (cases "isEqual (lodash_get (values state) key) v")
  case True
  then show ?thesis by (simp add: setValue_def getValue_def Let_def)
next
  case False
  then have "getValue (setValue state key v) key = lodash_get (lodash_set (values state) key v) key"
    by (simp add: setValue_def getValue_def Let_def)
  moreover have "\<forall>k \<in> set (castPath key (values state)). \<not> unsafeKey k"
    using assms(3) by (simp add: list_ex_iff)
  ultimately show ?thesis using get_set [OF assms(1) assms(2)] by (simp add: isEqual_refl)
qed

theorem setValue_getValue_witness:
  "castPath ''a[0].c'' (values arrayState) = [''a'', ''0'', ''c'']
   \<and> isEqual (getValue (setValue arrayState ''a[0].c'' (JStr ''x'')) ''a[0].c'') (JStr ''x'')"
proof -
  have c: "castPath ''a[0].c'' (values arrayState) = [''a'', ''0'', ''c'']" by code_simp
  have o: "isObject (values arrayState)" by code_simp
  have n: "castPath ''a[0].c'' (values arrayState) \<noteq> []" by (simp add: c)
  have s: "\<not> list_ex unsafeKey (castPath ''a[0].c'' (values arrayState))" by code_simp
  have i: "\<not> list_ex inheritedName (castPath ''a[0].c'' (values arrayState))" by code_simp
  have "indexedArrays (values arrayState) [''a'', ''0'', ''c'']"
    by (simp add: arrayState_def property_def arrayIndex_def isIndex_def isDigit_def
        digitsValue_def)
  then have a: "indexedArrays (values arrayState) (castPath ''a[0].c'' (values arrayState))"
    by (simp only: c)
  show ?thesis using setValue_getValue [OF o n s i a, of "JStr ''x''"] c by simp
qed

subsection \<open>C6: the touches that validation marks\<close>




subsection \<open>C7: submit without a handler, or on an invalid state\<close>

text \<open>
  C7: when the validation of \<open>submit\<close> finds the state invalid, or no submit handler is
  configured, \<open>submit\<close> writes the validated state with \<open>isSubmitted\<close> true, the loading
  flag is the one it read, and no call of the handler is started.
\<close>

theorem submit_invalid_or_no_handler:
  assumes "onSubmit m = None \<or> \<not> isValid (manipulator_validate m (snd (manager_get m)) True)"
  shows "cache (submit m)
           = Some ((manipulator_validate m (snd (manager_get m)) True)\<lparr>isSubmitted := True\<rparr>)
         \<and> isSubmitted (the (cache (submit m)))
         \<and> loading (the (cache (submit m))) = loading (snd (manager_get m))
         \<and> inflight (submit m) = inflight m"
proof -
  have "submit m = manager_set (fst (manager_get m))
          ((manipulator_validate m (snd (manager_get m)) True)\<lparr>isSubmitted := True\<rparr>)"
    using assms by (auto simp add: submit_def Let_def split_def manager_get_fields)
  then show ?thesis
    by (simp add: manager_set_def manager_get_fields manipulator_validate_keeps)
qed

theorem submit_invalid_or_no_handler_witness:
  "\<not> isValid (manipulator_validate (ageForm 10) (snd (manager_get (ageForm 10))) True)
   \<and> isSubmitted (the (cache (submit (ageForm 10))))
   \<and> loading (the (cache (submit (ageForm 10)))) = loading (snd (manager_get (ageForm 10)))
   \<and> inflight (submit (ageForm 10)) = inflight (ageForm 10)"
proof -
  have h: "\<not> isValid (manipulator_validate (ageForm 10) (snd (manager_get (ageForm 10))) True)"
    by code_simp
  then show ?thesis
    using submit_invalid_or_no_handler [of "ageForm 10"] by blast
qed

subsection \<open>C8: a submit handler that fails\<close>

text \<open>
  C8: when the handler is called (the state is valid) and its promise rejects, the state
  written back is the validated, submitted state with \<open>loading\<close> false; its errors are
  those of the validation, so nothing of the failure is kept, and no call stays in flight.
\<close>

theorem submit_rejection_swallowed:
  assumes "inflight m = []"
    and "onSubmit m = Some handler"
    and "isValid (manipulator_validate m (snd (manager_get m)) True)"
    and "handler ((manipulator_validate m (snd (manager_get m)) True)
            \<lparr>isSubmitted := True, loading := True\<rparr>) = Rejected"
  shows "cache (settle (submit m))
           = Some ((manipulator_validate m (snd (manager_get m)) True)
                    \<lparr>isSubmitted := True, loading := False\<rparr>)
         \<and> errors (the (cache (settle (submit m))))
           = errors (manipulator_validate m (snd (manager_get m)) True)
         \<and> inflight (settle (submit m)) = []"
proof -
  let ?v = "manipulator_validate m (snd (manager_get m)) True"
  let ?s3 = "?v\<lparr>isSubmitted := True, loading := True\<rparr>"
  have sub: "submit m = (manager_set (fst (manager_get m)) ?s3)\<lparr>inflight := [?s3]\<rparr>"
    using assms(1-3) by (simp add: submit_def Let_def split_def manager_get_fields manager_set_def)
  have "settle (submit m) = submit_catch ((submit m)\<lparr>inflight := []\<rparr>) ?s3"
    using assms(2,4) by (simp add: sub settle_def manager_set_def manager_get_fields)
  then show ?thesis
    by (simp add: submit_catch_def manager_set_def sub)
qed

theorem submit_rejection_swallowed_witness:
  "loading (the (cache (submit (ageForm 20))))
   \<and> cache (settle (submit (ageForm 20)))
       = Some ((manipulator_validate (ageForm 20) (snd (manager_get (ageForm 20))) True)
                \<lparr>isSubmitted := True, loading := False\<rparr>)
   \<and> inflight (settle (submit (ageForm 20))) = []"
proof -
  have a: "inflight (ageForm 20) = []" by code_simp
  have b: "onSubmit (ageForm 20) = Some (\<lambda>state. Rejected)"
    by (simp add: ageForm_def ageParams_def plainParams_def FormManager_def
        FormManager_fields_def validate_def manager_get_def manager_set_def Let_def)
  have c: "isValid (manipulator_validate (ageForm 20) (snd (manager_get (ageForm 20))) True)"
    by code_simp
  have d: "loading (the (cache (submit (ageForm 20))))" by code_simp
  show ?thesis
    using submit_rejection_swallowed [OF a b c] d by simp
qed

subsection \<open>C9: what validation leaves alone\<close>

text \<open>
  C9: \<open>validate(state, false)\<close> changes the errors and the validity only; the values, the
  touches, and the flags \<open>loading\<close>, \<open>existsChanges\<close> and \<open>isSubmitted\<close> are those of
  the state given.  (The validators are functions of the model, so they cannot change the
  state they are given.)
\<close>

theorem validate_frame:
  "values (manipulator_validate m state False) = values state
   \<and> touches (manipulator_validate m state False) = touches state
   \<and> loading (manipulator_validate m state False) = loading state
   \<and> existsChanges (manipulator_validate m state False) = existsChanges state
   \<and> isSubmitted (manipulator_validate m state False) = isSubmitted state"
  using manipulator_validate_keeps [of m state False] by simp

theorem validate_frame_witness:
  "values (manipulator_validate nestedForm (snd (manager_get (submit (ageForm 20)))) False)
     = JObj False [(''age'', JNum 20)]
   \<and> loading (manipulator_validate nestedForm (snd (manager_get (submit (ageForm 20)))) False)
   \<and> isSubmitted (manipulator_validate nestedForm (snd (manager_get (submit (ageForm 20)))) False)
   \<and> errors (manipulator_validate nestedForm (snd (manager_get (submit (ageForm 20)))) False)
     = JObj False [(''a'', JObj False [(''b'', JStr ''E2'')])]
   \<and> \<not> isValid (manipulator_validate nestedForm (snd (manager_get (submit (ageForm 20)))) False)"
proof -
  have "snd (manager_get (submit (ageForm 20)))
      = \<lparr>values = JObj False [(''age'', JNum 20)], errors = JObj False [],
          touches = JObj False [], isValid = True, loading = True, existsChanges = False,
          isSubmitted = True\<rparr>"
    by code_simp
  moreover have "errors (manipulator_validate nestedForm (snd (manager_get (submit (ageForm 20)))) False)
     = JObj False [(''a'', JObj False [(''b'', JStr ''E2'')])]
   \<and> \<not> isValid (manipulator_validate nestedForm (snd (manager_get (submit (ageForm 20)))) False)"
    by code_simp
  ultimately show ?thesis
    using validate_frame [of nestedForm "snd (manager_get (submit (ageForm 20)))"] by simp
qed

subsection \<open>C10: validation at construction\<close>



end
